theory Spec2Isabelle
  imports Main "HOL-Library.Char_ord" "HOL-Library.List_Lexorder"
begin

section \<open>The languoids view of wals3/views.py\<close>

text \<open>
  The view \<^verbatim>\<open>languoids(request)\<close> answers two kinds of request. With a non-empty
  \<^verbatim>\<open>id\<close> parameter it resolves one entity and redirects to it. Otherwise it takes the
  text of the \<^verbatim>\<open>q\<close> parameter and collects suggestions from four database queries, one
  after the other: languages by name, languages by the name of one of their identifiers,
  genera by name, families by name.
\<close>

subsection \<open>Rows and tables\<close>

text \<open>
  The mapped classes, reduced to the columns the view reads. \<^verbatim>\<open>WalsLanguage\<close> extends
  \<^verbatim>\<open>Language\<close> by \<^verbatim>\<open>ascii_name\<close>; a query for \<^verbatim>\<open>Language\<close> yields such rows.
\<close>

record language =
  language_pk :: nat
  language_id :: string
  language_name :: string
  ascii_name :: string

record genus =
  genus_pk :: nat
  genus_id :: string
  genus_name :: string

record family =
  family_pk :: nat
  family_id :: string
  family_name :: string

record identifier_row =
  identifier_pk :: nat
  identifier_name :: string

text \<open>The association table between languages and identifiers.\<close>

record languageidentifier =
  li_language_pk :: nat
  li_identifier_pk :: nat

record db =
  languages :: "language list"
  genera :: "genus list"
  families :: "family list"
  identifiers :: "identifier_row list"
  languageidentifiers :: "languageidentifier list"

text \<open>What the result list \<^verbatim>\<open>res\<close> holds: objects of the three mapped classes.\<close>

datatype languoid = Language language | Genus genus | Family family

subsection \<open>The four queries\<close>

text \<open>
  \<^verbatim>\<open>icontains\<close> comes from clld and is a parameter here: \<open>icontains col qs\<close> tells whether
  the column value \<open>col\<close> matches the text \<open>qs\<close>. \<^verbatim>\<open>order_by\<close> is a sort by the key, with
  the lexicographic order on strings standing for the collation of the database and rows
  of equal key left in the order of the table; \<^verbatim>\<open>limit(n)\<close> keeps the first \<open>n\<close> rows.

  A mapped object is its row: two results are the same object exactly when they are the
  same row, which is what \<^verbatim>\<open>l not in res\<close> compares.
\<close>

definition limit :: "nat \<Rightarrow> 'a list \<Rightarrow> 'a list" where
  "limit n q = take n q"

text \<open>
  \<^verbatim>\<open>DBSession.query(Language).filter(icontains(Language.name, qs))
       .order_by(WalsLanguage.ascii_name)\<close>
\<close>

definition language_name_query :: "(string \<Rightarrow> string \<Rightarrow> bool) \<Rightarrow> db \<Rightarrow> string \<Rightarrow> language list" where
  "language_name_query icontains d qs =
     sort_key ascii_name (filter (\<lambda>l. icontains (language_name l) qs) (languages d))"

text \<open>
  \<^verbatim>\<open>DBSession.query(Language)
       .join(Language.languageidentifier, LanguageIdentifier.identifier)
       .filter(icontains(Identifier.name, qs)).order_by(WalsLanguage.ascii_name)\<close>

  These are the rows of the SQL statement: the join has one row for each pair of a language
  and a matching identifier of it, so a language with two matching identifiers comes twice,
  and \<^verbatim>\<open>limit\<close> counts these rows. Iterating the query object hands each language out
  once only (see \<open>unique_list\<close> below); for the result list of the view this makes no
  difference, since the loop of stage B skips what is already in \<^verbatim>\<open>res\<close>.
\<close>

definition language_identifier_query :: "(string \<Rightarrow> string \<Rightarrow> bool) \<Rightarrow> db \<Rightarrow> string \<Rightarrow> language list" where
  "language_identifier_query icontains d qs =
     sort_key ascii_name
       [l. l \<leftarrow> languages d,
           li \<leftarrow> languageidentifiers d, li_language_pk li = language_pk l,
           i \<leftarrow> identifiers d, identifier_pk i = li_identifier_pk li,
           icontains (identifier_name i) qs]"

text \<open>
  Modelled from the spec: the query object is sqlalchemy's and not part of this repository;
  the spec takes the results of stage B as deduplicated by the provider. Iterating a query
  for one mapped class keeps, of the rows fetched, the first one of each object:
  \<open>unique_list [] rows\<close>, with \<open>seen\<close> the objects met so far.
\<close>

fun unique_list :: "'a list \<Rightarrow> 'a list \<Rightarrow> 'a list" where
  "unique_list seen [] = []"
| "unique_list seen (x # xs) =
     (if x \<in> set seen then unique_list seen xs else x # unique_list (x # seen) xs)"

text \<open>
  \<^verbatim>\<open>DBSession.query(Genus).filter(icontains(Genus.name, qs)).order_by(Genus.name)\<close>
\<close>

definition genus_query :: "(string \<Rightarrow> string \<Rightarrow> bool) \<Rightarrow> db \<Rightarrow> string \<Rightarrow> genus list" where
  "genus_query icontains d qs =
     sort_key genus_name (filter (\<lambda>g. icontains (genus_name g) qs) (genera d))"

text \<open>
  \<^verbatim>\<open>DBSession.query(Family).filter(icontains(Family.name, qs)).order_by(Family.name)\<close>
\<close>

definition family_query :: "(string \<Rightarrow> string \<Rightarrow> bool) \<Rightarrow> db \<Rightarrow> string \<Rightarrow> family list" where
  "family_query icontains d qs =
     sort_key family_name (filter (\<lambda>f. icontains (family_name f) qs) (families d))"

subsection \<open>The cascade\<close>

text \<open>
  The four steps of the view, in the order of the source. Two things are added to what the
  source keeps, both only to observe a run: every element of \<open>res\<close> carries the stage that
  appended it (the list of the source is \<open>map snd (res s)\<close>), and \<open>calls\<close> records every
  query that was run, with the limit it was given and the length of \<open>res\<close> at that moment.
\<close>

datatype stage = StageA | StageB | StageC | StageD

record call =
  call_stage :: stage
  call_limit :: nat
  call_before :: nat

record 'a cascade_state =
  res :: "(stage \<times> 'a) list"
  max_results :: nat
  calls :: "call list"

text \<open>
  A provider is a query still waiting for its limit: \<open>p n\<close> are the rows that iterating
  over \<^verbatim>\<open>query.limit(n)\<close> yields.
\<close>

type_synonym 'a provider = "nat \<Rightarrow> 'a list"

text \<open>
  \<^verbatim>\<open>max_results = 20
  query = ... .limit(max_results)
  res = [l for l in query]\<close>

  The initial value of \<^verbatim>\<open>max_results\<close> is the argument \<open>n\<close>; the view passes 20.
\<close>

definition stage_A :: "nat \<Rightarrow> 'a provider \<Rightarrow> 'a cascade_state" where
  "stage_A n pA =
     \<lparr>res = map (Pair StageA) (pA n),
      max_results = n,
      calls = [\<lparr>call_stage = StageA, call_limit = n, call_before = 0\<rparr>]\<rparr>"

text \<open>
  \<^verbatim>\<open>for l in ...:
      if l not in res:
          res.append(l)\<close>
\<close>

fun append_new :: "(stage \<times> 'a) list \<Rightarrow> 'a list \<Rightarrow> (stage \<times> 'a) list" where
  "append_new r [] = r"
| "append_new r (l # ls) =
     append_new (if l \<notin> snd ` set r then r @ [(StageB, l)] else r) ls"

text \<open>
  \<^verbatim>\<open>if len(res) < max_results:
      max_results = max_results - len(res)
      for l in ... .limit(max_results):
          if l not in res:
              res.append(l)\<close>

  The subtraction is on natural numbers and exact, since it runs only under the test
  \<^verbatim>\<open>len(res) < max_results\<close>.
\<close>

definition stage_B :: "'a provider \<Rightarrow> 'a cascade_state \<Rightarrow> 'a cascade_state" where
  "stage_B pB s =
     (if length (res s) < max_results s then
        let m = max_results s - length (res s) in
        \<lparr>res = append_new (res s) (pB m),
         max_results = m,
         calls = calls s @ [\<lparr>call_stage = StageB, call_limit = m, call_before = length (res s)\<rparr>]\<rparr>
      else s)"

text \<open>
  The blocks for genera and for families are the same code:

  \<^verbatim>\<open>if len(res) < max_results:
      max_results = max_results - len(res)
      for l in ... .limit(max_results):
          res.append(l)\<close>
\<close>

fun append_all :: "stage \<Rightarrow> (stage \<times> 'a) list \<Rightarrow> 'a list \<Rightarrow> (stage \<times> 'a) list" where
  "append_all st r [] = r"
| "append_all st r (l # ls) = append_all st (r @ [(st, l)]) ls"

definition fill_up :: "stage \<Rightarrow> 'a provider \<Rightarrow> 'a cascade_state \<Rightarrow> 'a cascade_state" where
  "fill_up st p s =
     (if length (res s) < max_results s then
        let m = max_results s - length (res s) in
        \<lparr>res = append_all st (res s) (p m),
         max_results = m,
         calls = calls s @ [\<lparr>call_stage = st, call_limit = m, call_before = length (res s)\<rparr>]\<rparr>
      else s)"

definition stage_C :: "'a provider \<Rightarrow> 'a cascade_state \<Rightarrow> 'a cascade_state" where
  "stage_C pC s = fill_up StageC pC s"

definition stage_D :: "'a provider \<Rightarrow> 'a cascade_state \<Rightarrow> 'a cascade_state" where
  "stage_D pD s = fill_up StageD pD s"

definition cascade ::
  "nat \<Rightarrow> 'a provider \<Rightarrow> 'a provider \<Rightarrow> 'a provider \<Rightarrow> 'a provider \<Rightarrow> 'a cascade_state" where
  "cascade n pA pB pC pD = stage_D pD (stage_C pC (stage_B pB (stage_A n pA)))"

text \<open>The part of the output that one stage appended.\<close>

definition accepted :: "stage \<Rightarrow> 'a cascade_state \<Rightarrow> 'a list" where
  "accepted st s = map snd (filter (\<lambda>e. fst e = st) (res s))"

text \<open>The priority of a stage: A before B before C before D.\<close>

fun stage_rank :: "stage \<Rightarrow> nat" where
  "stage_rank StageA = 0"
| "stage_rank StageB = 1"
| "stage_rank StageC = 2"
| "stage_rank StageD = 3"

text \<open>The text search of the view: the cascade over the four queries, with the limit 20.\<close>

definition languoids_search :: "(string \<Rightarrow> string \<Rightarrow> bool) \<Rightarrow> db \<Rightarrow> string \<Rightarrow> languoid cascade_state" where
  "languoids_search icontains d qs =
     cascade 20
       (\<lambda>n. map Language (limit n (language_name_query icontains d qs)))
       (\<lambda>n. map Language (limit n (language_identifier_query icontains d qs)))
       (\<lambda>n. map Genus (limit n (genus_query icontains d qs)))
       (\<lambda>n. map Family (limit n (family_query icontains d qs)))"

subsection \<open>The view\<close>

text \<open>
  The request: its parameters, and the URL it gives to an object
  (\<^verbatim>\<open>request.resource_url\<close>).
\<close>

record request =
  params :: "string \<rightharpoonup> string"
  resource_url :: "languoid \<Rightarrow> string"

text \<open>
  What the view returns: one of the two HTTP responses, the bare list \<^verbatim>\<open>[]\<close>, or the
  dictionary \<^verbatim>\<open>dict(results=..., context={}, more=False)\<close>, whose \<^verbatim>\<open>context\<close> is always
  empty and left out.
\<close>

datatype 'r response =
    HTTPNotFound
  | HTTPFound string
  | PlainList "'r list"
  | ResultDict "'r list" bool

text \<open>Python's truth value of \<^verbatim>\<open>request.params.get(k)\<close>: present and not empty.\<close>

fun truthy :: "string option \<Rightarrow> bool" where
  "truthy None = False"
| "truthy (Some s) = (s \<noteq> [])"

text \<open>\<^verbatim>\<open>s.split('-', 1)\<close> for a string that contains the separator: two parts.\<close>

definition split_first :: "string \<Rightarrow> string \<times> string" where
  "split_first s =
     (takeWhile (\<lambda>c. c \<noteq> CHR ''-'') s, tl (dropWhile (\<lambda>c. c \<noteq> CHR ''-'') s))"

datatype model = LanguageModel | GenusModel | FamilyModel

text \<open>\<^verbatim>\<open>dict(w=Language, g=Genus, f=Family).get(m)\<close>\<close>

definition model_of :: "string \<Rightarrow> model option" where
  "model_of m =
     (if m = ''w'' then Some LanguageModel
      else if m = ''g'' then Some GenusModel
      else if m = ''f'' then Some FamilyModel
      else None)"

text \<open>
  Modelled from the spec: \<^verbatim>\<open>model.get(id_, default=None)\<close> is a class method of clld's
  base class and not part of this repository. The spec gives it as the capability
  \<^verbatim>\<open>getByKindAndId(kindPrefix, id) -> optional entityRef\<close>: the entity of that kind with
  that id, if there is one.
\<close>

fun model_get :: "db \<Rightarrow> model \<Rightarrow> string \<Rightarrow> languoid option" where
  "model_get d LanguageModel i = map_option Language (find (\<lambda>l. language_id l = i) (languages d))"
| "model_get d GenusModel i = map_option Genus (find (\<lambda>g. genus_id g = i) (genera d))"
| "model_get d FamilyModel i = map_option Family (find (\<lambda>f. family_id f = i) (families d))"

text \<open>
  The first branch of the view, for a non-empty \<^verbatim>\<open>id\<close> parameter \<open>k\<close>.
\<close>

definition direct_lookup :: "db \<Rightarrow> request \<Rightarrow> string \<Rightarrow> 'r response" where
  "direct_lookup d request k =
     (if CHR ''-'' \<notin> set k then HTTPNotFound
      else
        let (m, ident) = split_first k in
        case model_of m of
          None \<Rightarrow> HTTPNotFound
        | Some model \<Rightarrow>
            (case model_get d model ident of
               None \<Rightarrow> HTTPNotFound
             | Some obj \<Rightarrow> HTTPFound (resource_url request obj)))"

text \<open>
  The view. \<open>format_result\<close> is \<^verbatim>\<open>LanguoidSelect.format_result\<close> of wals3.util, a
  parameter here. The second component of the result is the list of the text-search
  queries that were run.
\<close>

definition languoids ::
  "(string \<Rightarrow> string \<Rightarrow> bool) \<Rightarrow> (languoid \<Rightarrow> 'r) \<Rightarrow> db \<Rightarrow> request \<Rightarrow> 'r response \<times> call list" where
  "languoids icontains format_result d request =
     (if truthy (params request ''id'') then
        (direct_lookup d request (the (params request ''id'')), [])
      else if \<not> truthy (params request ''q'') then
        (PlainList [], [])
      else
        let s = languoids_search icontains d (the (params request ''q'')) in
        (ResultDict (map format_result (map snd (res s))) False, calls s))"

subsection \<open>Example data\<close>

text \<open>
  A small database for the concrete runs below: two languages, one genus, one family.
  The language Abau has one identifier, Zulu has two; all three identifier names contain
  the letter x, no language name does.
\<close>

definition abau :: language where
  "abau = \<lparr>language_pk = 1, language_id = ''aau'', language_name = ''Abau'', ascii_name = ''abau''\<rparr>"

definition zulu :: language where
  "zulu = \<lparr>language_pk = 2, language_id = ''zul'', language_name = ''Zulu'', ascii_name = ''zulu''\<rparr>"

definition bantoid :: genus where
  "bantoid = \<lparr>genus_pk = 1, genus_id = ''bantoid'', genus_name = ''Bantoid''\<rparr>"

definition niger_congo :: family where
  "niger_congo = \<lparr>family_pk = 1, family_id = ''nigercongo'', family_name = ''Niger-Congo''\<rparr>"

definition example_db :: db where
  "example_db =
     \<lparr>languages = [zulu, abau],
      genera = [bantoid],
      families = [niger_congo],
      identifiers =
        [\<lparr>identifier_pk = 1, identifier_name = ''zzx''\<rparr>,
         \<lparr>identifier_pk = 2, identifier_name = ''aax''\<rparr>,
         \<lparr>identifier_pk = 3, identifier_name = ''xx''\<rparr>],
      languageidentifiers =
        [\<lparr>li_language_pk = 1, li_identifier_pk = 1\<rparr>,
         \<lparr>li_language_pk = 2, li_identifier_pk = 2\<rparr>,
         \<lparr>li_language_pk = 2, li_identifier_pk = 3\<rparr>]\<rparr>"

text \<open>
  A stand-in for \<^verbatim>\<open>icontains\<close> in the concrete runs: every character of the text occurs in
  the column value.
\<close>

definition chars_in :: "string \<Rightarrow> string \<Rightarrow> bool" where
  "chars_in col qs = (set qs \<subseteq> set col)"

text \<open>
  A stand-in for \<^verbatim>\<open>request.resource_url\<close> and a request with given parameters, for the
  concrete runs.
\<close>

definition url_of :: "languoid \<Rightarrow> string" where
  "url_of obj =
     (case obj of
        Language l \<Rightarrow> ''/languoid/lect/wals_code_'' @ language_id l
      | Genus g \<Rightarrow> ''/languoid/genus/'' @ genus_id g
      | Family f \<Rightarrow> ''/languoid/family/'' @ family_id f)"

definition example_request :: "(string \<times> string) list \<Rightarrow> request" where
  "example_request ps = \<lparr>params = map_of ps, resource_url = url_of\<rparr>"








subsection \<open>An invariant of the cascade\<close>

text \<open>
  Used in the proofs below: with \<open>n\<close> the initial limit, neither \<^verbatim>\<open>max_results\<close> nor the
  length of \<^verbatim>\<open>res\<close> exceeds \<open>n\<close>, and every query that was run got a limit that, added to
  the length of \<^verbatim>\<open>res\<close> at that moment, stays within \<open>n\<close>.
\<close>

definition within_quota :: "nat \<Rightarrow> 'a cascade_state \<Rightarrow> bool" where
  "within_quota n s \<longleftrightarrow>
     max_results s \<le> n \<and> length (res s) \<le> n
     \<and> (\<forall>c \<in> set (calls s). call_limit c + call_before c \<le> n)"

section \<open>Lemmas\<close>

subsection \<open>The shape of the result list\<close>

lemma append_all_eq: "append_all st r ls = r @ map (Pair st) ls"
  by (induction ls arbitrary: r) simp_all

lemma append_new_shape:
  "\<exists>ys. append_new r xs = r @ map (Pair StageB) ys
      \<and> distinct ys \<and> set ys = set xs - snd ` set r \<and> length ys \<le> length xs
      \<and> (sorted (map f xs) \<longrightarrow> sorted (map f ys))"
proof (induction xs arbitrary: r)
  case Nil
  show ?case by simp
next
  case (Cons l ls)
  show ?case
  proof (cases "l \<in> snd ` set r")
    case True
    from Cons.IH [of r] obtain ys where ys:
      "append_new r ls = r @ map (Pair StageB) ys" "distinct ys"
      "set ys = set ls - snd ` set r" "length ys \<le> length ls"
      "sorted (map f ls) \<longrightarrow> sorted (map f ys)"
      by blast
    have "append_new r (l # ls) = r @ map (Pair StageB) ys"
      using True ys(1) by simp
    moreover have "set ys = set (l # ls) - snd ` set r"
      using True ys(3) by auto
    moreover have "sorted (map f (l # ls)) \<longrightarrow> sorted (map f ys)"
      using ys(5) by simp
    ultimately show ?thesis
      using ys(2,4) by (intro exI [of _ ys]) simp
  next
    case False
    let ?r = "r @ [(StageB, l)]"
    from Cons.IH [of ?r] obtain ys where ys:
      "append_new ?r ls = ?r @ map (Pair StageB) ys" "distinct ys"
      "set ys = set ls - snd ` set ?r" "length ys \<le> length ls"
      "sorted (map f ls) \<longrightarrow> sorted (map f ys)"
      by blast
    have 1: "append_new r (l # ls) = r @ map (Pair StageB) (l # ys)"
      using False ys(1) by simp
    have 2: "distinct (l # ys)"
      using ys(2,3) by simp
    have 3: "set (l # ys) = set (l # ls) - snd ` set r"
      using False ys(3) by auto
    have 4: "length (l # ys) \<le> length (l # ls)"
      using ys(4) by simp
    have 5: "sorted (map f (l # ls)) \<longrightarrow> sorted (map f (l # ys))"
      using ys(3,5) by auto
    show ?thesis
      using 1 2 3 4 5 by (intro exI [of _ "l # ys"]) blast
  qed
qed


lemma stage_A_res: "res (stage_A n pA) = map (Pair StageA) (pA n)"
  by (simp add: stage_A_def)

lemma stage_B_shape:
  "\<exists>ys. res (stage_B pB s) = res s @ map (Pair StageB) ys
      \<and> distinct ys \<and> set ys \<inter> snd ` set (res s) = {}
      \<and> (\<exists>m. set ys \<subseteq> set (pB m) \<and> length ys \<le> length (pB m)
             \<and> (sorted (map f (pB m)) \<longrightarrow> sorted (map f ys)))"
proof (cases "length (res s) < max_results s")
  case True
  let ?m = "max_results s - length (res s)"
  from append_new_shape [of "res s" "pB ?m" f] obtain ys where ys:
    "append_new (res s) (pB ?m) = res s @ map (Pair StageB) ys" "distinct ys"
    "set ys = set (pB ?m) - snd ` set (res s)" "length ys \<le> length (pB ?m)"
    "sorted (map f (pB ?m)) \<longrightarrow> sorted (map f ys)"
    by blast
  have "res (stage_B pB s) = res s @ map (Pair StageB) ys"
    using True ys(1) by (simp add: stage_B_def Let_def)
  moreover have "set ys \<inter> snd ` set (res s) = {}"
    using ys(3) by blast
  moreover have "set ys \<subseteq> set (pB ?m)"
    using ys(3) by blast
  ultimately show ?thesis
    using ys(2,4,5) by blast
next
  case False
  have "res (stage_B pB s) = res s @ map (Pair StageB) []"
    using False by (simp add: stage_B_def)
  then show ?thesis
    by (intro exI [of _ "[]"]) simp
qed

lemma fill_up_res:
  "res (fill_up st p s) =
     res s @ map (Pair st) (if length (res s) < max_results s then p (max_results s - length (res s)) else [])"
  by (simp add: fill_up_def Let_def append_all_eq)

lemma fill_up_shape: "\<exists>zs. res (fill_up st p s) = res s @ map (Pair st) zs"
  using fill_up_res [of st p s] by blast

lemma cascade_shape:
  "\<exists>ys zs ws. res (cascade n pA pB pC pD) =
       map (Pair StageA) (pA n) @ map (Pair StageB) ys @ map (Pair StageC) zs @ map (Pair StageD) ws
     \<and> distinct ys \<and> set ys \<inter> set (pA n) = {}
     \<and> (\<exists>m. set ys \<subseteq> set (pB m) \<and> (sorted (map f (pB m)) \<longrightarrow> sorted (map f ys)))
     \<and> (zs = [] \<or> (\<exists>m. zs = pC m)) \<and> (ws = [] \<or> (\<exists>m. ws = pD m))"
proof -
  let ?a = "stage_A n pA"
  let ?b = "stage_B pB ?a"
  let ?c = "fill_up StageC pC ?b"
  let ?zs = "if length (res ?b) < max_results ?b then pC (max_results ?b - length (res ?b)) else []"
  let ?ws = "if length (res ?c) < max_results ?c then pD (max_results ?c - length (res ?c)) else []"
  from stage_B_shape [of pB ?a f] obtain ys where ys:
    "res ?b = res ?a @ map (Pair StageB) ys" "distinct ys"
    "set ys \<inter> snd ` set (res ?a) = {}"
    "\<exists>m. set ys \<subseteq> set (pB m) \<and> (sorted (map f (pB m)) \<longrightarrow> sorted (map f ys))"
    by blast
  have zs: "res ?c = res ?b @ map (Pair StageC) ?zs"
    by (rule fill_up_res)
  have ws: "res (fill_up StageD pD ?c) = res ?c @ map (Pair StageD) ?ws"
    by (rule fill_up_res)
  have "snd ` set (res ?a) = set (pA n)"
    by (force simp: stage_A_res)
  with ys(3) have dj: "set ys \<inter> set (pA n) = {}"
    by simp
  have sh: "res (cascade n pA pB pC pD) =
      map (Pair StageA) (pA n) @ map (Pair StageB) ys @ map (Pair StageC) ?zs @ map (Pair StageD) ?ws"
    unfolding cascade_def stage_C_def stage_D_def ws zs ys(1) stage_A_res by simp
  have z: "?zs = [] \<or> (\<exists>m. ?zs = pC m)" by auto
  have w: "?ws = [] \<or> (\<exists>m. ?ws = pD m)" by auto
  show ?thesis
    apply (rule exI [of _ ys], rule exI [of _ ?zs], rule exI [of _ ?ws])
    apply (intro conjI)
         apply (rule sh)
        apply (rule ys(2))
       apply (rule dj)
      apply (rule ys(4))
     apply (rule z)
    apply (rule w)
    done
qed

lemma accepted_shape:
  assumes "res s = map (Pair StageA) xs @ map (Pair StageB) ys @ map (Pair StageC) zs @ map (Pair StageD) ws"
  shows "accepted StageA s = xs" and "accepted StageB s = ys"
    and "accepted StageC s = zs" and "accepted StageD s = ws"
  by (simp_all add: accepted_def assms filter_map comp_def)

lemma sorted_map_const: "sorted (map (\<lambda>x. c) xs)"
  by (induction xs) simp_all

lemma language_name_query_distinct:
  "distinct (languages d) \<Longrightarrow> distinct (map Language (limit n (language_name_query ic d qs)))"
  by (simp add: distinct_map limit_def language_name_query_def inj_on_def)



text \<open>
  Whether stage B gets the rows of the join or each language once is the same for the
  cascade: the limit is fixed before the query runs, and the loop skips repeated rows.
\<close>

lemma append_new_unique_list:
  assumes "set seen \<subseteq> snd ` set r"
  shows "append_new r (unique_list seen xs) = append_new r xs"
  using assms
proof (induction xs arbitrary: seen r)
  case Nil
  show ?case by simp
next
  case (Cons x xs)
  show ?case
  proof (cases "x \<in> set seen")
    case True
    with Cons.prems have "x \<in> snd ` set r" by blast
    with True Cons.IH [OF Cons.prems] show ?thesis by simp
  next
    case False
    let ?r = "if x \<notin> snd ` set r then r @ [(StageB, x)] else r"
    have "set (x # seen) \<subseteq> snd ` set ?r"
      using Cons.prems by auto
    from Cons.IH [OF this] False show ?thesis by simp
  qed
qed

lemma stage_B_unique_list: "stage_B (\<lambda>n. unique_list [] (pB n)) s = stage_B pB s"
  by (simp add: stage_B_def Let_def append_new_unique_list)

subsection \<open>The quota is kept\<close>

lemma stage_A_quota:
  assumes "\<forall>m. length (pA m) \<le> m"
  shows "within_quota n (stage_A n pA)"
  using assms by (simp add: within_quota_def stage_A_def)

lemma append_new_length: "length (append_new r xs) \<le> length r + length xs"
  using append_new_shape [of r xs "\<lambda>x. ()"] by auto

lemma stage_B_quota:
  assumes "\<forall>m. length (pB m) \<le> m" and "within_quota n s"
  shows "within_quota n (stage_B pB s)"
proof (cases "length (res s) < max_results s")
  case True
  let ?m = "max_results s - length (res s)"
  have "length (append_new (res s) (pB ?m)) \<le> length (res s) + length (pB ?m)"
    by (rule append_new_length)
  also have "\<dots> \<le> length (res s) + ?m"
    using assms(1) by simp
  also have "\<dots> = max_results s"
    using True by simp
  finally have "length (append_new (res s) (pB ?m)) \<le> max_results s" .
  with True assms(2) show ?thesis
    by (auto simp: within_quota_def stage_B_def Let_def)
next
  case False
  with assms(2) show ?thesis
    by (simp add: stage_B_def)
qed

lemma fill_up_quota:
  assumes "\<forall>m. length (p m) \<le> m" and "within_quota n s"
  shows "within_quota n (fill_up st p s)"
proof (cases "length (res s) < max_results s")
  case True
  let ?m = "max_results s - length (res s)"
  have "length (append_all st (res s) (p ?m)) = length (res s) + length (p ?m)"
    by (simp add: append_all_eq)
  also have "\<dots> \<le> length (res s) + ?m"
    using assms(1) by simp
  also have "\<dots> = max_results s"
    using True by simp
  finally have "length (append_all st (res s) (p ?m)) \<le> max_results s" .
  with True assms(2) show ?thesis
    by (auto simp: within_quota_def fill_up_def Let_def)
next
  case False
  with assms(2) show ?thesis
    by (simp add: fill_up_def)
qed

lemma cascade_quota:
  assumes "\<forall>m. length (pA m) \<le> m" "\<forall>m. length (pB m) \<le> m"
    "\<forall>m. length (pC m) \<le> m" "\<forall>m. length (pD m) \<le> m"
  shows "within_quota n (cascade n pA pB pC pD)"
  unfolding cascade_def stage_C_def stage_D_def
  by (intro fill_up_quota stage_B_quota stage_A_quota assms)

lemma languoids_search_quota: "within_quota 20 (languoids_search ic d qs)"
  unfolding languoids_search_def
  by (rule cascade_quota) (simp_all add: limit_def)

lemma within_quotaD:
  assumes "within_quota n s"
  shows "length (res s) \<le> n \<and> (\<forall>c \<in> set (calls s). call_limit c \<le> n - call_before c)"
  using assms by (fastforce simp: within_quota_def)

subsection \<open>The direct lookup\<close>

lemma split_first_at:
  assumes "CHR ''-'' \<notin> set p"
  shows "split_first (p @ CHR ''-'' # rest) = (p, rest)"
proof -
  have "takeWhile (\<lambda>c. c \<noteq> CHR ''-'') (p @ CHR ''-'' # rest) = p"
    using assms by (subst takeWhile_append2) auto
  moreover have "dropWhile (\<lambda>c. c \<noteq> CHR ''-'') (p @ CHR ''-'' # rest) = CHR ''-'' # rest"
    using assms by (subst dropWhile_append2) auto
  ultimately show ?thesis
    by (simp add: split_first_def)
qed

lemma model_of_None: "model_of m = None \<longleftrightarrow> m \<notin> {''w'', ''g'', ''f''}"
  by (simp add: model_of_def)

lemma languoids_direct:
  assumes "params request ''id'' = Some k" and "k \<noteq> []"
  shows "languoids ic fmt d request = (direct_lookup d request k, [])"
  using assms by (simp add: languoids_def)

lemma find_absent: "find (\<lambda>r. f r = i) rows = None \<longleftrightarrow> i \<notin> f ` set rows"
  by (auto simp: find_None_iff)

lemma find_present:
  assumes "find (\<lambda>r. f r = i) rows = Some r"
  shows "r \<in> set rows \<and> f r = i"
  using assms by (auto simp: find_Some_iff)

lemma direct_lookup_unknown:
  assumes "CHR ''-'' \<notin> set k \<or> fst (split_first k) \<notin> {''w'', ''g'', ''f''}"
  shows "direct_lookup d request k = HTTPNotFound"
  using assms
  by (auto simp: direct_lookup_def model_of_def split: prod.splits)

lemma direct_lookup_language:
  assumes "CHR ''-'' \<in> set k" and "split_first k = (''w'', i)"
  shows "direct_lookup d request k =
     (case find (\<lambda>l. language_id l = i) (languages d) of
        None \<Rightarrow> HTTPNotFound
      | Some l \<Rightarrow> HTTPFound (resource_url request (Language l)))"
  using assms by (simp add: direct_lookup_def model_of_def split: option.splits)

lemma direct_lookup_genus:
  assumes "CHR ''-'' \<in> set k" and "split_first k = (''g'', i)"
  shows "direct_lookup d request k =
     (case find (\<lambda>g. genus_id g = i) (genera d) of
        None \<Rightarrow> HTTPNotFound
      | Some g \<Rightarrow> HTTPFound (resource_url request (Genus g)))"
  using assms by (simp add: direct_lookup_def model_of_def split: option.splits)

lemma direct_lookup_family:
  assumes "CHR ''-'' \<in> set k" and "split_first k = (''f'', i)"
  shows "direct_lookup d request k =
     (case find (\<lambda>f. family_id f = i) (families d) of
        None \<Rightarrow> HTTPNotFound
      | Some f \<Rightarrow> HTTPFound (resource_url request (Family f)))"
  using assms by (simp add: direct_lookup_def model_of_def split: option.splits)

subsection \<open>Concrete runs\<close>

lemma example_run:
  "res (cascade 20 (\<lambda>n. take n [10::nat, 20]) (\<lambda>n. take n [20, 30, 30]) (\<lambda>n. take n [40]) (\<lambda>n. take n [50]))
     = [(StageA, 10), (StageA, 20), (StageB, 30), (StageC, 40), (StageD, 50)]"
  by code_simp

lemma example_query: "language_identifier_query chars_in example_db ''x'' = [abau, zulu, zulu]"
  by code_simp

lemma example_search:
  "res (languoids_search chars_in example_db ''x'') = [(StageB, Language abau), (StageB, Language zulu)]"
  by code_simp

lemma example_distinct: "distinct (languages example_db)"
  by code_simp

section \<open>Order and duplicates\<close>

text \<open>
  Claim C6. The output keeps the priority of the stages: the stages of the elements of the
  result list never decrease along the list, so whenever an element of a stage of higher
  priority (A before B before C before D) and an element of a stage of lower priority are
  both in the output, the first stands before the second. This holds for every limit and
  for all four providers, whatever they return.
\<close>

theorem stage_priority_order:
  "sorted (map (stage_rank \<circ> fst) (res (cascade n pA pB pC pD)))
   \<and> (\<forall>i j. i < length (res (cascade n pA pB pC pD))
          \<and> j < length (res (cascade n pA pB pC pD))
          \<and> stage_rank (fst (res (cascade n pA pB pC pD) ! i))
              < stage_rank (fst (res (cascade n pA pB pC pD) ! j))
        \<longrightarrow> i < j)"
proof -
  let ?r = "res (cascade n pA pB pC pD)"
  from cascade_shape [of n pA pB pC pD "\<lambda>x. ()"] obtain ys zs ws where
    "?r = map (Pair StageA) (pA n) @ map (Pair StageB) ys @ map (Pair StageC) zs @ map (Pair StageD) ws"
    by blast
  then have srt: "sorted (map (stage_rank \<circ> fst) ?r)"
    by (auto simp: sorted_append comp_def sorted_map_const)
  have "i < j" if "i < length ?r" "j < length ?r"
    "stage_rank (fst (?r ! i)) < stage_rank (fst (?r ! j))" for i j
  proof (rule ccontr)
    assume "\<not> i < j"
    then have "j \<le> i" by simp
    with srt that(1) have "map (stage_rank \<circ> fst) ?r ! j \<le> map (stage_rank \<circ> fst) ?r ! i"
      by (intro sorted_nth_mono) simp_all
    with that show False by simp
  qed
  with srt show ?thesis by blast
qed

theorem stage_priority_order_witness:
  "(let r = res (cascade 20 (\<lambda>n. take n [10::nat, 20]) (\<lambda>n. take n [20, 30, 30]) (\<lambda>n. take n [40]) (\<lambda>n. take n [50]))
    in r = [(StageA, 10), (StageA, 20), (StageB, 30), (StageC, 40), (StageD, 50)]
       \<and> 1 < length r \<and> 3 < length r
       \<and> stage_rank (fst (r ! 1)) < stage_rank (fst (r ! 3))
       \<and> sorted (map (stage_rank \<circ> fst) r))"
  using stage_priority_order
    [of 20 "\<lambda>n. take n [10::nat, 20]" "\<lambda>n. take n [20, 30, 30]" "\<lambda>n. take n [40]" "\<lambda>n. take n [50]"]
  unfolding example_run Let_def by simp

text \<open>
  Claim C7. Stage A appends everything its provider returns, and no element that stage B
  appended is equal to one that stage A appended: a candidate of stage B that is already
  in the result list is dropped. This holds for every limit and for all providers.
\<close>

theorem stage_AB_dedup:
  "accepted StageA (cascade n pA pB pC pD) = pA n
   \<and> set (accepted StageA (cascade n pA pB pC pD)) \<inter> set (accepted StageB (cascade n pA pB pC pD)) = {}
   \<and> (\<forall>x y. (StageA, x) \<in> set (res (cascade n pA pB pC pD))
          \<and> (StageB, y) \<in> set (res (cascade n pA pB pC pD)) \<longrightarrow> x \<noteq> y)"
proof -
  let ?s = "cascade n pA pB pC pD"
  from cascade_shape [of n pA pB pC pD "\<lambda>x. ()"] obtain ys zs ws where sh:
    "res ?s = map (Pair StageA) (pA n) @ map (Pair StageB) ys @ map (Pair StageC) zs @ map (Pair StageD) ws"
    and dj: "set ys \<inter> set (pA n) = {}"
    by blast
  have a: "accepted StageA ?s = pA n" and b: "accepted StageB ?s = ys"
    using accepted_shape [OF sh] by simp_all
  have "x \<noteq> y" if "(StageA, x) \<in> set (res ?s)" "(StageB, y) \<in> set (res ?s)" for x y
  proof -
    from that(1) have "x \<in> set (pA n)" by (auto simp: sh)
    moreover from that(2) have "y \<in> set ys" by (auto simp: sh)
    ultimately show ?thesis using dj by blast
  qed
  with a b dj show ?thesis by (simp add: Int_commute)
qed

theorem stage_AB_dedup_witness:
  "(let s = cascade 20 (\<lambda>n. take n [10::nat, 20]) (\<lambda>n. take n [20, 30, 30]) (\<lambda>n. take n [40]) (\<lambda>n. take n [50])
    in (StageA, 20) \<in> set (res s) \<and> (StageB, 30) \<in> set (res s)
       \<and> accepted StageA s = [10, 20] \<and> accepted StageB s = [30]
       \<and> set (accepted StageA s) \<inter> set (accepted StageB s) = {})"
  using stage_AB_dedup
    [of 20 "\<lambda>n. take n [10::nat, 20]" "\<lambda>n. take n [20, 30, 30]" "\<lambda>n. take n [40]" "\<lambda>n. take n [50]"]
  unfolding accepted_def example_run Let_def by simp

text \<open>
  Claim C9. Stage B also removes the duplicates of its own provider, since each candidate
  is tested against the list as it grows: what stage B appends has no element twice, for
  every provider. Together with stage A the language part of the output has no element
  twice as soon as the rows of stage A are pairwise different, which is the case for the
  query of the view over a language table without a repeated row, even though the join of
  stage B yields a language once for each matching identifier.
\<close>

theorem stage_B_entity_once:
  "distinct (accepted StageB (cascade n pA pB pC pD))
   \<and> (distinct (pA n) \<longrightarrow>
        distinct (accepted StageA (cascade n pA pB pC pD) @ accepted StageB (cascade n pA pB pC pD)))
   \<and> (distinct (languages d) \<longrightarrow>
        distinct (filter (\<lambda>e. case e of Language l \<Rightarrow> True | _ \<Rightarrow> False)
          (map snd (res (languoids_search ic d qs)))))"
proof -
  have generic: "distinct (accepted StageB (cascade n pA pB pC pD))
     \<and> (distinct (pA n) \<longrightarrow>
        distinct (accepted StageA (cascade n pA pB pC pD) @ accepted StageB (cascade n pA pB pC pD)))"
    for n and pA pB pC pD :: "'b provider"
  proof -
    let ?s = "cascade n pA pB pC pD"
    from cascade_shape [of n pA pB pC pD "\<lambda>x. ()"] obtain ys zs ws where sh:
      "res ?s = map (Pair StageA) (pA n) @ map (Pair StageB) ys @ map (Pair StageC) zs @ map (Pair StageD) ws"
      and ds: "distinct ys" and dj: "set ys \<inter> set (pA n) = {}"
      by blast
    have "accepted StageA ?s = pA n" and "accepted StageB ?s = ys"
      using accepted_shape [OF sh] by simp_all
    with ds dj show ?thesis by (auto simp: Int_commute)
  qed
  have view: "distinct (filter (\<lambda>e. case e of Language l \<Rightarrow> True | _ \<Rightarrow> False)
          (map snd (res (languoids_search ic d qs))))" if dl: "distinct (languages d)"
  proof -
    let ?pA = "\<lambda>n. map Language (limit n (language_name_query ic d qs))"
    let ?pB = "\<lambda>n. map Language (limit n (language_identifier_query ic d qs))"
    let ?pC = "\<lambda>n. map Genus (limit n (genus_query ic d qs))"
    let ?pD = "\<lambda>n. map Family (limit n (family_query ic d qs))"
    let ?isl = "\<lambda>e. case e of Language l \<Rightarrow> True | _ \<Rightarrow> False"
    from cascade_shape [of 20 ?pA ?pB ?pC ?pD "\<lambda>x. ()"] obtain ys zs ws m where
      sh: "res (languoids_search ic d qs) =
        map (Pair StageA) (?pA 20) @ map (Pair StageB) ys @ map (Pair StageC) zs @ map (Pair StageD) ws"
      and ds: "distinct ys" and dj: "set ys \<inter> set (?pA 20) = {}"
      and sub: "set ys \<subseteq> set (?pB m)"
      and zs: "zs = [] \<or> (\<exists>m. zs = ?pC m)" and ws: "ws = [] \<or> (\<exists>m. ws = ?pD m)"
      unfolding languoids_search_def by blast
    have fa: "filter ?isl (?pA 20) = ?pA 20"
      by (simp add: filter_map comp_def)
    have fb: "filter ?isl ys = ys"
      using sub by (intro filter_True) auto
    have fc: "filter ?isl zs = []"
      using zs by (auto simp: filter_map comp_def)
    have fd: "filter ?isl ws = []"
      using ws by (auto simp: filter_map comp_def)
    have "filter ?isl (map snd (res (languoids_search ic d qs))) = ?pA 20 @ ys"
      unfolding sh using fa fb fc fd by (simp add: comp_def)
    moreover have "distinct (?pA 20)"
      using dl by (rule language_name_query_distinct)
    ultimately show ?thesis
      using ds dj by (simp add: Int_commute)
  qed
  from generic view show ?thesis by blast
qed

theorem stage_B_entity_once_witness:
  "distinct (take 20 [10::nat, 20])
   \<and> accepted StageB (cascade 20 (\<lambda>n. take n [10::nat, 20]) (\<lambda>n. take n [20, 30, 30]) (\<lambda>n. take n [40]) (\<lambda>n. take n [50])) = [30]
   \<and> distinct (languages example_db)
   \<and> language_identifier_query chars_in example_db ''x'' = [abau, zulu, zulu]
   \<and> map snd (res (languoids_search chars_in example_db ''x'')) = [Language abau, Language zulu]
   \<and> distinct (filter (\<lambda>e. case e of Language l \<Rightarrow> True | _ \<Rightarrow> False)
          (map snd (res (languoids_search chars_in example_db ''x''))))"
  using stage_B_entity_once [of 20 "\<lambda>n. take n [10::nat, 20]" "\<lambda>n. take n [20, 30, 30]"
      "\<lambda>n. take n [40]" "\<lambda>n. take n [50]" example_db chars_in "''x''"]
  unfolding accepted_def example_run
  by (simp add: example_distinct example_query example_search)

text \<open>
  Claim C8. What stage B appends is a list of languages ordered by their \<^verbatim>\<open>ascii_name\<close>,
  the sort key of the language itself, and not by the identifier name that matched. In the
  example Abau comes before Zulu although the matching identifier of Abau (zzx) is behind
  the one of Zulu (aax).
\<close>

theorem stage_B_order:
  "\<exists>ls. accepted StageB (languoids_search ic d qs) = map Language ls
      \<and> sorted (map ascii_name ls)
      \<and> set ls \<subseteq> set (language_identifier_query ic d qs)"
proof -
  let ?pA = "\<lambda>n. map Language (limit n (language_name_query ic d qs))"
  let ?pB = "\<lambda>n. map Language (limit n (language_identifier_query ic d qs))"
  let ?pC = "\<lambda>n. map Genus (limit n (genus_query ic d qs))"
  let ?pD = "\<lambda>n. map Family (limit n (family_query ic d qs))"
  let ?key = "\<lambda>e. case e of Language l \<Rightarrow> ascii_name l | _ \<Rightarrow> []"
  let ?un = "\<lambda>e. case e of Language l \<Rightarrow> l"
  from cascade_shape [of 20 ?pA ?pB ?pC ?pD ?key] obtain ys zs ws m where
    sh: "res (languoids_search ic d qs) =
      map (Pair StageA) (?pA 20) @ map (Pair StageB) ys @ map (Pair StageC) zs @ map (Pair StageD) ws"
    and sub: "set ys \<subseteq> set (?pB m)"
    and srt: "sorted (map ?key (?pB m)) \<longrightarrow> sorted (map ?key ys)"
    unfolding languoids_search_def by blast
  have acc: "accepted StageB (languoids_search ic d qs) = ys"
    using accepted_shape [OF sh] by simp
  have "sorted (map ascii_name (language_identifier_query ic d qs))"
    by (simp add: language_identifier_query_def)
  then have "sorted (take m (map ascii_name (language_identifier_query ic d qs)))"
    by (rule sorted_wrt_take)
  then have "sorted (map ?key (?pB m))"
    by (simp add: limit_def comp_def take_map)
  with srt have s1: "sorted (map ?key ys)" by simp
  have "map (\<lambda>e. Language (?un e)) ys = ys"
    using sub by (intro map_idI) auto
  then have ys: "ys = map Language (map ?un ys)"
    by (simp add: comp_def)
  have "map ?key ys = map ascii_name (map ?un ys)"
    using sub by auto
  with s1 have s2: "sorted (map ascii_name (map ?un ys))" by simp
  have "?un e \<in> set (language_identifier_query ic d qs)" if "e \<in> set ys" for e
  proof -
    from that sub obtain l where "e = Language l" "l \<in> set (limit m (language_identifier_query ic d qs))"
      by auto
    then show ?thesis
      by (auto simp: limit_def dest: in_set_takeD)
  qed
  then have "set (map ?un ys) \<subseteq> set (language_identifier_query ic d qs)"
    by auto
  with acc ys s2 show ?thesis by metis
qed

theorem stage_B_order_witness:
  "accepted StageB (languoids_search chars_in example_db ''x'') = map Language [abau, zulu]
   \<and> sorted (map ascii_name [abau, zulu])
   \<and> \<not> sorted [''zzx'', ''aax'']"
proof -
  have acc: "accepted StageB (languoids_search chars_in example_db ''x'') = [Language abau, Language zulu]"
    unfolding accepted_def example_search by simp
  from stage_B_order [of chars_in example_db "''x''"] obtain ls where
    ls: "map Language ls = [Language abau, Language zulu]" and srt: "sorted (map ascii_name ls)"
    unfolding acc by metis
  from ls have "ls = [abau, zulu]"
    by (auto simp: map_eq_Cons_conv)
  with srt have "sorted (map ascii_name [abau, zulu])"
    by simp
  moreover have "\<not> sorted [''zzx'', ''aax'']"
    by code_simp
  ultimately show ?thesis
    using acc by simp
qed

section \<open>The quota\<close>

text \<open>
  Claim C5. When every provider returns at most as many rows as the limit it is given, the
  result list of the cascade is never longer than the initial limit, and every query is run
  with a limit that is at most what was left of the initial limit at that moment (the
  initial limit minus the rows accepted so far). For the view this means: a dictionary
  response has at most 20 results, and each of its four queries had a limit of at most 20
  minus the length of the result list when it was run. The queries of the view satisfy the
  condition by their \<^verbatim>\<open>limit\<close>.
\<close>

theorem quota_conservation:
  "((\<forall>m. length (pA m) \<le> m) \<and> (\<forall>m. length (pB m) \<le> m)
      \<and> (\<forall>m. length (pC m) \<le> m) \<and> (\<forall>m. length (pD m) \<le> m)
    \<longrightarrow> length (res (cascade n pA pB pC pD)) \<le> n
        \<and> (\<forall>c \<in> set (calls (cascade n pA pB pC pD)). call_limit c \<le> n - call_before c))
   \<and> (\<forall>rs more cs. languoids ic format_result d request = (ResultDict rs more, cs)
        \<longrightarrow> length rs \<le> 20 \<and> (\<forall>c \<in> set cs. call_limit c \<le> 20 - call_before c))"
proof -
  have 1: "length (res (cascade n pA pB pC pD)) \<le> n
        \<and> (\<forall>c \<in> set (calls (cascade n pA pB pC pD)). call_limit c \<le> n - call_before c)"
    if "(\<forall>m. length (pA m) \<le> m) \<and> (\<forall>m. length (pB m) \<le> m)
      \<and> (\<forall>m. length (pC m) \<le> m) \<and> (\<forall>m. length (pD m) \<le> m)"
    using that by (intro within_quotaD cascade_quota) simp_all
  have 2: "length rs \<le> 20 \<and> (\<forall>c \<in> set cs. call_limit c \<le> 20 - call_before c)"
    if "languoids ic format_result d request = (ResultDict rs more, cs)" for rs more cs
  proof -
    let ?s = "languoids_search ic d (the (params request ''q''))"
    from that have "rs = map format_result (map snd (res ?s))" "cs = calls ?s"
      by (auto simp: languoids_def Let_def direct_lookup_def
          split: if_splits option.splits prod.splits)
    with within_quotaD [OF languoids_search_quota, of ic d "the (params request ''q'')"]
    show ?thesis by simp
  qed
  from 1 2 show ?thesis by blast
qed

theorem quota_conservation_witness:
  "(\<forall>m. length (take m [10::nat, 20]) \<le> m) \<and> (\<forall>m. length (take m [20::nat, 30, 30]) \<le> m)
   \<and> (\<forall>m. length (take m [40::nat]) \<le> m) \<and> (\<forall>m. length (take m [50::nat]) \<le> m)
   \<and> length (res (cascade 20 (\<lambda>n. take n [10::nat, 20]) (\<lambda>n. take n [20, 30, 30]) (\<lambda>n. take n [40]) (\<lambda>n. take n [50]))) \<le> 20
   \<and> list_all (\<lambda>c. call_limit c \<le> 20 - call_before c)
        (calls (cascade 20 (\<lambda>n. take n [10::nat, 20]) (\<lambda>n. take n [20, 30, 30]) (\<lambda>n. take n [40]) (\<lambda>n. take n [50])))
   \<and> languoids chars_in id example_db (example_request [(''q'', ''a'')])
      = (ResultDict [Language abau, Language zulu, Genus bantoid] False,
         [\<lparr>call_stage = StageA, call_limit = 20, call_before = 0\<rparr>,
          \<lparr>call_stage = StageB, call_limit = 19, call_before = 1\<rparr>,
          \<lparr>call_stage = StageC, call_limit = 17, call_before = 2\<rparr>,
          \<lparr>call_stage = StageD, call_limit = 14, call_before = 3\<rparr>])
   \<and> length [Language abau, Language zulu, Genus bantoid] \<le> 20"
proof -
  have caps: "(\<forall>m. length (take m [10::nat, 20]) \<le> m) \<and> (\<forall>m. length (take m [20::nat, 30, 30]) \<le> m)
   \<and> (\<forall>m. length (take m [40::nat]) \<le> m) \<and> (\<forall>m. length (take m [50::nat]) \<le> m)"
    by simp
  have run: "languoids chars_in id example_db (example_request [(''q'', ''a'')])
      = (ResultDict [Language abau, Language zulu, Genus bantoid] False,
         [\<lparr>call_stage = StageA, call_limit = 20, call_before = 0\<rparr>,
          \<lparr>call_stage = StageB, call_limit = 19, call_before = 1\<rparr>,
          \<lparr>call_stage = StageC, call_limit = 17, call_before = 2\<rparr>,
          \<lparr>call_stage = StageD, call_limit = 14, call_before = 3\<rparr>])"
    by code_simp
  note t = quota_conservation
    [of "\<lambda>n. take n [10::nat, 20]" "\<lambda>n. take n [20, 30, 30]" "\<lambda>n. take n [40]" "\<lambda>n. take n [50]"
      20 chars_in id example_db "example_request [(''q'', ''a'')]"]
  from t caps have
    "length (res (cascade 20 (\<lambda>n. take n [10::nat, 20]) (\<lambda>n. take n [20, 30, 30]) (\<lambda>n. take n [40]) (\<lambda>n. take n [50]))) \<le> 20
     \<and> (\<forall>c \<in> set (calls (cascade 20 (\<lambda>n. take n [10::nat, 20]) (\<lambda>n. take n [20, 30, 30]) (\<lambda>n. take n [40]) (\<lambda>n. take n [50]))).
        call_limit c \<le> 20 - call_before c)"
    by blast
  then have
    "length (res (cascade 20 (\<lambda>n. take n [10::nat, 20]) (\<lambda>n. take n [20, 30, 30]) (\<lambda>n. take n [40]) (\<lambda>n. take n [50]))) \<le> 20
     \<and> list_all (\<lambda>c. call_limit c \<le> 20 - call_before c)
        (calls (cascade 20 (\<lambda>n. take n [10::nat, 20]) (\<lambda>n. take n [20, 30, 30]) (\<lambda>n. take n [40]) (\<lambda>n. take n [50])))"
    by (simp add: list_all_iff)
  moreover from t run have "length [Language abau, Language zulu, Genus bantoid] \<le> 20"
    by blast
  ultimately show ?thesis
    using caps run by blast
qed

text \<open>
  Claim C1 says that each of the stages B, C and D runs exactly when fewer than 20
  candidates were accepted so far, and then with a limit of exactly 20 minus that number.
  The view does so for stage B only. Before stage C and before stage D it tests and
  subtracts the whole length of \<^verbatim>\<open>res\<close> again, although \<^verbatim>\<open>max_results\<close> was already reduced by
  the rows of the earlier stages. Two runs show it. In the example database the text a
  matches Abau by name, Zulu by an identifier and the genus Bantoid: stage C gets the limit
  17 with 2 candidates accepted (18 left), stage D the limit 14 with 3 accepted (17 left).
  With ten rows from stage A and none from stage B the cascade stops after stage B with ten
  results, although ten places are left and stage C has rows to give.
\<close>

theorem cascade_quota_divergence:
  "languoids chars_in id example_db (example_request [(''q'', ''a'')])
     = (ResultDict [Language abau, Language zulu, Genus bantoid] False,
        [\<lparr>call_stage = StageA, call_limit = 20, call_before = 0\<rparr>,
         \<lparr>call_stage = StageB, call_limit = 19, call_before = 1\<rparr>,
         \<lparr>call_stage = StageC, call_limit = 17, call_before = 2\<rparr>,
         \<lparr>call_stage = StageD, call_limit = 14, call_before = 3\<rparr>])
   \<and> res (cascade 20 (\<lambda>n. take n [0..<10]) (\<lambda>n. []) (\<lambda>n. take n [100..<130]) (\<lambda>n. []))
       = map (Pair StageA) [0..<10]
   \<and> calls (cascade 20 (\<lambda>n. take n [0..<10]) (\<lambda>n. []) (\<lambda>n. take n [100..<130]) (\<lambda>n. []))
       = [\<lparr>call_stage = StageA, call_limit = 20, call_before = 0\<rparr>,
          \<lparr>call_stage = StageB, call_limit = 10, call_before = 10\<rparr>]"
  by code_simp




section \<open>The two early exits of the view\<close>

text \<open>
  Claim C3, as amended. A request whose \<^verbatim>\<open>id\<close> parameter is missing or empty and whose
  \<^verbatim>\<open>q\<close> parameter is missing or empty gets the bare empty list \<^verbatim>\<open>[]\<close>, and no query is
  run.
\<close>

theorem empty_query_response:
  assumes "\<not> truthy (params request ''id'')" and "\<not> truthy (params request ''q'')"
  shows "languoids ic fmt d request = (PlainList [], [])"
  using assms by (simp add: languoids_def)

theorem empty_query_response_witness:
  "\<not> truthy (params (example_request [(''q'', [])]) ''id'')
   \<and> \<not> truthy (params (example_request [(''q'', [])]) ''q'')
   \<and> languoids chars_in id example_db (example_request [(''q'', [])]) = (PlainList [], [])"
proof -
  have 1: "\<not> truthy (params (example_request [(''q'', [])]) ''id'')"
    by (simp add: example_request_def)
  have 2: "\<not> truthy (params (example_request [(''q'', [])]) ''q'')"
    by (simp add: example_request_def)
  from empty_query_response [OF 1 2] 1 2 show ?thesis by simp
qed

text \<open>
  Claim C3 as it was stated asks for the dictionary with an empty \<^verbatim>\<open>results\<close> list and
  \<^verbatim>\<open>more = False\<close>. For a request without parameters the view returns the bare list, which
  is a different response.
\<close>

theorem empty_query_counterexample:
  "fst (languoids chars_in id example_db (example_request [])) = PlainList []
   \<and> fst (languoids chars_in id example_db (example_request [])) \<noteq> ResultDict [] False"
  by (simp add: languoids_def example_request_def)

text \<open>
  Claim C4. A request carries a direct-lookup key when its \<^verbatim>\<open>id\<close> parameter is present and
  not empty (the test of the view is the truth value of \<^verbatim>\<open>request.params.get('id')\<close>). For
  such a request the view answers \<^verbatim>\<open>HTTPNotFound\<close> exactly when the key has no separator
  \<^verbatim>\<open>-\<close>, or the part before the first separator is none of w, g, f, or that part is w and
  no language has the rest of the key as its id, or it is g and no genus has that id, or it
  is f and no family has that id. Otherwise it answers \<^verbatim>\<open>HTTPFound\<close> with the URL of the
  entity found: a language of the language table for w, a genus of the genus table for g,
  a family of the family table for f, each with that id. In both cases no text-search
  query is run, whatever the \<^verbatim>\<open>q\<close> parameter is.
\<close>

theorem direct_lookup_not_found:
  assumes "params request ''id'' = Some k" and "k \<noteq> []"
  shows "(fst (languoids ic fmt d request) = HTTPNotFound \<longleftrightarrow>
            CHR ''-'' \<notin> set k
          \<or> fst (split_first k) \<notin> {''w'', ''g'', ''f''}
          \<or> (fst (split_first k) = ''w'' \<and> snd (split_first k) \<notin> language_id ` set (languages d))
          \<or> (fst (split_first k) = ''g'' \<and> snd (split_first k) \<notin> genus_id ` set (genera d))
          \<or> (fst (split_first k) = ''f'' \<and> snd (split_first k) \<notin> family_id ` set (families d)))
       \<and> (fst (languoids ic fmt d request) \<noteq> HTTPNotFound \<longrightarrow>
            (fst (split_first k) = ''w'' \<and>
               (\<exists>l. find (\<lambda>l. language_id l = snd (split_first k)) (languages d) = Some l
                  \<and> l \<in> set (languages d) \<and> language_id l = snd (split_first k)
                  \<and> fst (languoids ic fmt d request) = HTTPFound (resource_url request (Language l))))
          \<or> (fst (split_first k) = ''g'' \<and>
               (\<exists>g. find (\<lambda>g. genus_id g = snd (split_first k)) (genera d) = Some g
                  \<and> g \<in> set (genera d) \<and> genus_id g = snd (split_first k)
                  \<and> fst (languoids ic fmt d request) = HTTPFound (resource_url request (Genus g))))
          \<or> (fst (split_first k) = ''f'' \<and>
               (\<exists>f. find (\<lambda>f. family_id f = snd (split_first k)) (families d) = Some f
                  \<and> f \<in> set (families d) \<and> family_id f = snd (split_first k)
                  \<and> fst (languoids ic fmt d request) = HTTPFound (resource_url request (Family f)))))
       \<and> snd (languoids ic fmt d request) = []"
proof -
  obtain m i where sp: "split_first k = (m, i)"
    by (cases "split_first k")
  have r: "languoids ic fmt d request = (direct_lookup d request k, [])"
    using assms by (rule languoids_direct)
  have wgf: "''w'' \<noteq> ''g''" "''w'' \<noteq> ''f''" "''g'' \<noteq> ''f''"
    by simp_all
  consider (unknown) "CHR ''-'' \<notin> set k \<or> m \<notin> {''w'', ''g'', ''f''}"
    | (w) "CHR ''-'' \<in> set k" "m = ''w''"
    | (g) "CHR ''-'' \<in> set k" "m = ''g''"
    | (f) "CHR ''-'' \<in> set k" "m = ''f''"
    by blast
  then show ?thesis
  proof cases
    case unknown
    then have "direct_lookup d request k = HTTPNotFound"
      using sp by (intro direct_lookup_unknown) simp
    with unknown show ?thesis
      unfolding r sp fst_conv snd_conv by blast
  next
    case w
    note dl = direct_lookup_language [OF w(1) sp [unfolded w(2)], of d request]
    show ?thesis
    proof (cases "find (\<lambda>l. language_id l = i) (languages d)")
      case None
      then have "i \<notin> language_id ` set (languages d)"
        using find_absent [of language_id i "languages d"] by blast
      with None dl w show ?thesis
        unfolding r sp fst_conv snd_conv by simp
    next
      case (Some l)
      have found: "direct_lookup d request k = HTTPFound (resource_url request (Language l))"
        using dl Some by simp
      have present: "i \<in> language_id ` set (languages d)"
        using find_present [OF Some] by blast
      show ?thesis
        unfolding r sp fst_conv snd_conv found
        using Some find_present [OF Some] present w wgf by simp
    qed
  next
    case g
    note dl = direct_lookup_genus [OF g(1) sp [unfolded g(2)], of d request]
    show ?thesis
    proof (cases "find (\<lambda>g. genus_id g = i) (genera d)")
      case None
      then have "i \<notin> genus_id ` set (genera d)"
        using find_absent [of genus_id i "genera d"] by blast
      with None dl g show ?thesis
        unfolding r sp fst_conv snd_conv by simp
    next
      case (Some x)
      have found: "direct_lookup d request k = HTTPFound (resource_url request (Genus x))"
        using dl Some by simp
      have present: "i \<in> genus_id ` set (genera d)"
        using find_present [OF Some] by blast
      show ?thesis
        unfolding r sp fst_conv snd_conv found
        using Some find_present [OF Some] present g wgf by simp
    qed
  next
    case f
    note dl = direct_lookup_family [OF f(1) sp [unfolded f(2)], of d request]
    show ?thesis
    proof (cases "find (\<lambda>f. family_id f = i) (families d)")
      case None
      then have "i \<notin> family_id ` set (families d)"
        using find_absent [of family_id i "families d"] by blast
      with None dl f show ?thesis
        unfolding r sp fst_conv snd_conv by simp
    next
      case (Some x)
      have found: "direct_lookup d request k = HTTPFound (resource_url request (Family x))"
        using dl Some by simp
      have present: "i \<in> family_id ` set (families d)"
        using find_present [OF Some] by blast
      show ?thesis
        unfolding r sp fst_conv snd_conv found
        using Some find_present [OF Some] present f wgf by simp
    qed
  qed
qed

theorem direct_lookup_not_found_witness:
  "params (example_request [(''id'', ''q-1''), (''q'', ''a'')]) ''id'' = Some ''q-1''
   \<and> ''q-1'' \<noteq> []
   \<and> fst (split_first ''q-1'') \<notin> {''w'', ''g'', ''f''}
   \<and> languoids chars_in id example_db (example_request [(''id'', ''q-1''), (''q'', ''a'')])
      = (HTTPNotFound, [])
   \<and> params (example_request [(''id'', ''g-bantoid''), (''q'', ''a'')]) ''id'' = Some ''g-bantoid''
   \<and> ''g-bantoid'' \<noteq> []
   \<and> split_first ''g-bantoid'' = (''g'', ''bantoid'')
   \<and> find (\<lambda>g. genus_id g = ''bantoid'') (genera example_db) = Some bantoid
   \<and> languoids chars_in id example_db (example_request [(''id'', ''g-bantoid''), (''q'', ''a'')])
      = (HTTPFound ''/languoid/genus/bantoid'', [])
   \<and> params (example_request [(''id'', ''w-bantoid''), (''q'', ''a'')]) ''id'' = Some ''w-bantoid''
   \<and> ''bantoid'' \<notin> language_id ` set (languages example_db)
   \<and> languoids chars_in id example_db (example_request [(''id'', ''w-bantoid''), (''q'', ''a'')])
      = (HTTPNotFound, [])"
proof -
  have p1: "params (example_request [(''id'', ''q-1''), (''q'', ''a'')]) ''id'' = Some ''q-1''"
    by (simp add: example_request_def)
  have p2: "params (example_request [(''id'', ''g-bantoid''), (''q'', ''a'')]) ''id'' = Some ''g-bantoid''"
    by (simp add: example_request_def)
  have p3: "params (example_request [(''id'', ''w-bantoid''), (''q'', ''a'')]) ''id'' = Some ''w-bantoid''"
    by (simp add: example_request_def)
  have s1: "split_first ''q-1'' = (''q'', ''1'')"
    by (simp add: split_first_def)
  have s2: "split_first ''g-bantoid'' = (''g'', ''bantoid'')"
    by (simp add: split_first_def)
  have s3: "split_first ''w-bantoid'' = (''w'', ''bantoid'')"
    by (simp add: split_first_def)
  have fg: "find (\<lambda>g. genus_id g = ''bantoid'') (genera example_db) = Some bantoid"
    by (simp add: example_db_def bantoid_def)
  have nl: "''bantoid'' \<notin> language_id ` set (languages example_db)"
    by (simp add: example_db_def zulu_def abau_def)
  have ge: "''bantoid'' \<in> genus_id ` set (genera example_db)"
    by (simp add: example_db_def bantoid_def)
  have u: "resource_url (example_request ps) (Genus bantoid) = ''/languoid/genus/bantoid''" for ps
    by (simp add: example_request_def url_of_def bantoid_def)
  have r1: "languoids chars_in id example_db (example_request [(''id'', ''q-1''), (''q'', ''a'')])
      = (HTTPNotFound, [])"
    using direct_lookup_not_found [OF p1, of chars_in id example_db]
    unfolding s1 fst_conv snd_conv by (simp add: prod_eq_iff)
  have r2: "languoids chars_in id example_db (example_request [(''id'', ''g-bantoid''), (''q'', ''a'')])
      = (HTTPFound ''/languoid/genus/bantoid'', [])"
    using direct_lookup_not_found [OF p2, of chars_in id example_db]
    unfolding s2 fst_conv snd_conv fg using ge by (auto simp: prod_eq_iff u)
  have r3: "languoids chars_in id example_db (example_request [(''id'', ''w-bantoid''), (''q'', ''a'')])
      = (HTTPNotFound, [])"
    using direct_lookup_not_found [OF p3, of chars_in id example_db] nl
    unfolding s3 fst_conv snd_conv by (simp add: prod_eq_iff)
  from p1 p2 p3 s1 s2 fg nl r1 r2 r3 show ?thesis
    by simp
qed

text \<open>
  Claim C10. The key is split at its first separator only. For the key w-abc-def the kind
  prefix is w and the id that is looked up among the languages is abc-def; in general a key
  \<open>p-rest\<close> with no separator in \<open>p\<close> splits into \<open>p\<close> and \<open>rest\<close>, whatever \<open>rest\<close> contains.
  A key that begins with the separator has the empty prefix, which is no kind, and the
  answer is \<^verbatim>\<open>HTTPNotFound\<close>.
\<close>

theorem split_at_first_separator:
  "split_first ''w-abc-def'' = (''w'', ''abc-def'')
   \<and> (CHR ''-'' \<notin> set p \<longrightarrow> split_first (p @ CHR ''-'' # rest) = (p, rest))
   \<and> (params request ''id'' = Some ''w-abc-def'' \<longrightarrow>
        languoids ic fmt d request =
          (case find (\<lambda>l. language_id l = ''abc-def'') (languages d) of
             None \<Rightarrow> HTTPNotFound
           | Some l \<Rightarrow> HTTPFound (resource_url request (Language l)), []))
   \<and> (params request ''id'' = Some (CHR ''-'' # rest) \<longrightarrow>
        split_first (CHR ''-'' # rest) = ([], rest)
        \<and> languoids ic fmt d request = (HTTPNotFound, []))"
proof -
  have 1: "split_first ''w-abc-def'' = (''w'', ''abc-def'')"
    by (simp add: split_first_def)
  have 2: "split_first (CHR ''-'' # rest) = ([], rest)"
    by (simp add: split_first_def)
  have 3: "languoids ic fmt d request =
          (case find (\<lambda>l. language_id l = ''abc-def'') (languages d) of
             None \<Rightarrow> HTTPNotFound
           | Some l \<Rightarrow> HTTPFound (resource_url request (Language l)), [])"
    if "params request ''id'' = Some ''w-abc-def''"
    using that 1 by (simp add: languoids_def direct_lookup_def model_of_def split: option.splits)
  have 4: "languoids ic fmt d request = (HTTPNotFound, [])"
    if "params request ''id'' = Some (CHR ''-'' # rest)"
    using that 2 by (simp add: languoids_def direct_lookup_def model_of_def)
  from 1 2 3 4 show ?thesis
    by (simp add: split_first_at)
qed

theorem split_at_first_separator_witness:
  "CHR ''-'' \<notin> set ''w''
   \<and> split_first (''w'' @ CHR ''-'' # ''abc-def'') = (''w'', ''abc-def'')
   \<and> params (example_request [(''id'', ''w-abc-def'')]) ''id'' = Some ''w-abc-def''
   \<and> languoids chars_in id
        (example_db\<lparr>languages := [zulu\<lparr>language_id := ''abc-def''\<rparr>]\<rparr>)
        (example_request [(''id'', ''w-abc-def'')])
      = (HTTPFound ''/languoid/lect/wals_code_abc-def'', [])
   \<and> params (example_request [(''id'', ''-abc'')]) ''id'' = Some (CHR ''-'' # ''abc'')
   \<and> languoids chars_in id example_db (example_request [(''id'', ''-abc'')]) = (HTTPNotFound, [])"
proof -
  have 1: "CHR ''-'' \<notin> set ''w''"
    by simp
  have 2: "params (example_request [(''id'', ''w-abc-def'')]) ''id'' = Some ''w-abc-def''"
    by (simp add: example_request_def)
  have 3: "params (example_request [(''id'', ''-abc'')]) ''id'' = Some (CHR ''-'' # ''abc'')"
    by (simp add: example_request_def)
  note t1 = split_at_first_separator
    [of "''w''" "''abc-def''" "example_request [(''id'', ''w-abc-def'')]" chars_in id
      "example_db\<lparr>languages := [zulu\<lparr>language_id := ''abc-def''\<rparr>]\<rparr>"]
  note t2 = split_at_first_separator
    [of "''w''" "''abc''" "example_request [(''id'', ''-abc'')]" chars_in id example_db]
  have 4: "languoids chars_in id
        (example_db\<lparr>languages := [zulu\<lparr>language_id := ''abc-def''\<rparr>]\<rparr>)
        (example_request [(''id'', ''w-abc-def'')])
      = (HTTPFound ''/languoid/lect/wals_code_abc-def'', [])"
    using t1 2 by (simp add: example_db_def zulu_def example_request_def url_of_def)
  have 5: "languoids chars_in id example_db (example_request [(''id'', ''-abc'')]) = (HTTPNotFound, [])"
    using t2 3 by simp
  have 6: "split_first (''w'' @ CHR ''-'' # ''abc-def'') = (''w'', ''abc-def'')"
    using t1 1 by simp
  from 1 2 3 4 5 6 show ?thesis
    by (intro conjI)
qed

end
